theory Spec2Isabelle
  imports Complex_Main "HOL-Library.Char_ord" "HOL-Library.List_Lexorder"
begin

section \<open>Numbers and errors\<close>

text \<open>
  The notebook computes with floats (Python's and numpy's, both IEEE doubles). They are
  modelled by exact reals, extended by the special values the code can produce on the
  inputs considered here: NaN and the two infinities. Rounding of IEEE doubles is not
  modelled; every statement below is about exact arithmetic.
\<close>

datatype pyfloat = NaN | Fin real | PInf | NInf

text \<open>
  \<open>ZeroDivisionError\<close>, \<open>KeyError\<close>, \<open>IndexError\<close>, \<open>ValueError\<close> and
  \<open>AttributeError\<close> are the Python exceptions the modelled cells can raise.
  \<open>ComplexScale\<close> is not an exception: it marks the inputs of \<open>get_pvalue\<close> for which
  the radicand of the standard error is negative, where \<open>** 0.5\<close> leaves the real
  numbers (for a Python float the result is a complex number); the model does not
  follow the computation further, and rates in \<open>[0, 1]\<close> never lead there. \<open>InvalidInput\<close> and
  \<open>DegenerateDistribution\<close> are the error kinds named by the specification; no
  definition below produces them.
\<close>

datatype error =
    ZeroDivisionError
  | KeyError
  | IndexError
  | ValueError
  | AttributeError
  | ComplexScale
  | InvalidInput
  | DegenerateDistribution

text \<open>
  \<open>c * x\<close>, \<open>x + y\<close> and \<open>x >= c\<close> on floats, \<open>c\<close> finite: NaN propagates and compares
  false, zero times an infinity and the sum of opposite infinities are NaN.
\<close>

fun fmul :: "real \<Rightarrow> pyfloat \<Rightarrow> pyfloat" where
  "fmul c NaN = NaN"
| "fmul c (Fin x) = Fin (c * x)"
| "fmul c PInf = (if 0 < c then PInf else if c < 0 then NInf else NaN)"
| "fmul c NInf = (if 0 < c then NInf else if c < 0 then PInf else NaN)"

fun fadd :: "pyfloat \<Rightarrow> pyfloat \<Rightarrow> pyfloat" where
  "fadd (Fin x) (Fin y) = Fin (x + y)"
| "fadd NaN y = NaN"
| "fadd x NaN = NaN"
| "fadd PInf NInf = NaN"
| "fadd NInf PInf = NaN"
| "fadd PInf y = PInf"
| "fadd x PInf = PInf"
| "fadd NInf y = NInf"
| "fadd x NInf = NInf"

fun fge :: "pyfloat \<Rightarrow> real \<Rightarrow> bool" where
  "fge NaN c = False"
| "fge (Fin x) c = (c \<le> x)"
| "fge PInf c = True"
| "fge NInf c = False"

text \<open>
  \<open>1 / n\<close> for a size \<open>n\<close>. The notebook takes the sizes from \<open>value_counts()\<close> (lines
  160 and 161), so they are \<open>numpy.int64\<close>, and numpy's division by zero raises
  nothing: it warns and answers \<open>inf\<close>. For a Python \<open>int\<close> the same expression raises
  \<open>ZeroDivisionError\<close>.
\<close>

definition np_recip :: "int \<Rightarrow> pyfloat" where
  "np_recip n = (if n = 0 then PInf else Fin (1 / real_of_int n))"

definition py_recip :: "int \<Rightarrow> error + real" where
  "py_recip n = (if n = 0 then Inl ZeroDivisionError else Inr (1 / real_of_int n))"

text \<open>
  \<open>x ** 0.5\<close>: the square root of a nonnegative number, \<open>inf\<close> for \<open>inf\<close>, NaN for NaN;
  \<open>None\<close> for a negative radicand, which the model does not follow.
\<close>

fun fpow_half :: "pyfloat \<Rightarrow> pyfloat option" where
  "fpow_half NaN = Some NaN"
| "fpow_half (Fin x) = (if x < 0 then None else Some (Fin (x powr 0.5)))"
| "fpow_half PInf = Some PInf"
| "fpow_half NInf = None"


section \<open>The standard normal distribution function\<close>

text \<open>
  \<open>scipy.stats.norm.cdf\<close> is library code. Its standard normal distribution function is
  defined here by the power series of the integral of the density,
  \<open>\<integral>\<^sub>0\<^sup>x exp (- t\<^sup>2 / 2) dt = \<Sum>k. (- 1 / 2)\<^sup>k / k! * x\<^bsup>2 k + 1\<^esup> / (2 k + 1)\<close>,
  so that \<open>Phi x = 1 / 2 + (\<integral>\<^sub>0\<^sup>x exp (- t\<^sup>2 / 2) dt) / sqrt (2 \<pi>)\<close>.
\<close>

definition gauss_coeff :: "nat \<Rightarrow> real" where
  "gauss_coeff n = (if even n then (- 1 / 2) ^ (n div 2) / fact (n div 2) else 0)"

definition gauss_int :: "real \<Rightarrow> real" where
  "gauss_int x = (\<Sum>n. gauss_coeff n / real (Suc n) * x ^ Suc n)"

definition Phi :: "real \<Rightarrow> real" where
  "Phi x = 1 / 2 + gauss_int x / sqrt (2 * pi)"

text \<open>The density (up to its constant), and an auxiliary sum used to bound \<open>gauss_int\<close>.\<close>

definition gauss_pdf :: "real \<Rightarrow> real" where
  "gauss_pdf t = exp (- (t\<^sup>2) / 2)"

definition gauss_aux :: "nat \<Rightarrow> real \<Rightarrow> real" where
  "gauss_aux N x = 2 / real N *
     (\<Sum>k<N. exp (- (x\<^sup>2) * (1 + (real k / real N)\<^sup>2) / 2) / (1 + (real k / real N)\<^sup>2))"

text \<open>
  \<open>norm.cdf(x, loc, scale)\<close>: scipy standardises the argument to \<open>(x - loc) / scale\<close> and
  fills the result with NaN wherever \<open>scale > 0\<close> does not hold; it raises nothing.
\<close>

definition norm_cdf :: "real \<Rightarrow> real \<Rightarrow> real \<Rightarrow> pyfloat" where
  "norm_cdf x loc scale = (if 0 < scale then Fin (Phi ((x - loc) / scale)) else NaN)"

text \<open>
  The same call with a scale that need not be finite. A NaN scale fails \<open>scale > 0\<close>;
  for the scale \<open>inf\<close> the standardised argument \<open>(x - loc) / inf\<close> is zero.
\<close>

fun norm_cdf_scale :: "real \<Rightarrow> real \<Rightarrow> pyfloat \<Rightarrow> pyfloat" where
  "norm_cdf_scale x loc (Fin s) = norm_cdf x loc s"
| "norm_cdf_scale x loc NaN = NaN"
| "norm_cdf_scale x loc PInf = Fin (Phi 0)"
| "norm_cdf_scale x loc NInf = NaN"


section \<open>The significance test: \<open>get_pvalue\<close>\<close>

text \<open>
  \<open>get_pvalue\<close> as the notebook calls it (line 206): the rates are finite floats, the
  sizes are \<open>numpy.int64\<close>. No statement of the function raises for such arguments; a
  zero size makes \<open>1 / size\<close> infinite, and the scales, their sum and \<open>scale_val\<close> are
  then infinite or NaN.
\<close>

definition get_pvalue :: "real \<Rightarrow> real \<Rightarrow> int \<Rightarrow> int \<Rightarrow> error + (pyfloat \<times> string)" where
  "get_pvalue con_conv test_conv con_size test_size =
    (let lift = - \<bar>test_conv - con_conv\<bar>;
         scale_one = fmul (con_conv * (1 - con_conv)) (np_recip con_size);
         scale_two = fmul (test_conv * (1 - test_conv)) (np_recip test_size)
     in case fpow_half (fadd scale_one scale_two) of
          None \<Rightarrow> Inl ComplexScale
        | Some scale_val \<Rightarrow>
            (let p_value = fmul 2 (norm_cdf_scale lift 0 scale_val)
             in if fge p_value 0.05
                then Inr (p_value, ''Not Significant'')
                else Inr (p_value, ''Significant Result'')))"

text \<open>
  The same function called with Python \<open>int\<close> sizes: \<open>1 / size\<close> raises
  \<open>ZeroDivisionError\<close> for a zero size, at line 194 for \<open>con_size\<close> and otherwise at line
  195 for \<open>test_size\<close>, both before \<open>** 0.5\<close>. For nonzero sizes the two definitions
  agree.
\<close>

definition get_pvalue_pyint ::
    "real \<Rightarrow> real \<Rightarrow> int \<Rightarrow> int \<Rightarrow> error + (pyfloat \<times> string)" where
  "get_pvalue_pyint con_conv test_conv con_size test_size =
    (let lift = - \<bar>test_conv - con_conv\<bar> in
     case py_recip con_size of Inl e \<Rightarrow> Inl e | Inr r1 \<Rightarrow>
     let scale_one = con_conv * (1 - con_conv) * r1 in
     case py_recip test_size of Inl e \<Rightarrow> Inl e | Inr r2 \<Rightarrow>
     let scale_two = test_conv * (1 - test_conv) * r2 in
     if scale_one + scale_two < 0 then Inl ComplexScale else
     let scale_val = (scale_one + scale_two) powr 0.5;
         p_value = fmul 2 (norm_cdf lift 0 scale_val)
     in if fge p_value 0.05
        then Inr (p_value, ''Not Significant'')
        else Inr (p_value, ''Significant Result''))"

text \<open>The two components of the returned pair, \<open>None\<close> when the call raised.\<close>

fun returned_p :: "error + (pyfloat \<times> string) \<Rightarrow> pyfloat option" where
  "returned_p (Inr (p, msg)) = Some p"
| "returned_p (Inl e) = None"

fun returned_msg :: "error + (pyfloat \<times> string) \<Rightarrow> string option" where
  "returned_msg (Inr (p, msg)) = Some msg"
| "returned_msg (Inl e) = None"


section \<open>The algorithm as the specification words it\<close>

text \<open>
  Steps 1 to 4 of the specification's \<open>compute_significance\<close>, written as the
  specification writes them (division by the size, a square root), for comparison with
  \<open>get_pvalue\<close>; and its precondition on the inputs: rates in \<open>[0, 1]\<close>, positive sizes,
  a nonzero pooled standard error.
\<close>

definition spec_lift :: "real \<Rightarrow> real \<Rightarrow> real" where
  "spec_lift rate_control rate_test = - \<bar>rate_test - rate_control\<bar>"

definition spec_scale :: "real \<Rightarrow> int \<Rightarrow> real" where
  "spec_scale rate group_size = rate * (1 - rate) / real_of_int group_size"

definition spec_standard_error :: "real \<Rightarrow> real \<Rightarrow> int \<Rightarrow> int \<Rightarrow> real" where
  "spec_standard_error rate_control rate_test size_control size_test =
     sqrt (spec_scale rate_control size_control + spec_scale rate_test size_test)"

definition valid_input :: "real \<Rightarrow> real \<Rightarrow> int \<Rightarrow> int \<Rightarrow> bool" where
  "valid_input rate_control rate_test size_control size_test \<longleftrightarrow>
     0 \<le> rate_control \<and> rate_control \<le> 1 \<and> 0 \<le> rate_test \<and> rate_test \<le> 1 \<and>
     0 < size_control \<and> 0 < size_test \<and>
     spec_standard_error rate_control rate_test size_control size_test \<noteq> 0"


section \<open>The dataset and the checking cell\<close>

text \<open>
  A row of the loaded table, with the four columns the notebook requires (the column
  \<open>group\<close> is the field \<open>group_label\<close>), and the table as the list of its rows.
\<close>

record experiment_row =
  uid :: string
  date :: string
  group_label :: string
  converted :: int

type_synonym dataframe = "experiment_row list"

text \<open>pandas' \<open>Series.unique()\<close>: the distinct values in order of first appearance.\<close>

fun unique_from :: "'a list \<Rightarrow> 'a list \<Rightarrow> 'a list" where
  "unique_from seen [] = []"
| "unique_from seen (x # xs) =
     (if x \<in> set seen then unique_from seen xs else x # unique_from (x # seen) xs)"

definition unique :: "'a list \<Rightarrow> 'a list" where
  "unique xs = unique_from [] xs"

text \<open>
  numpy's \<open>(arr == [0, 1]).all()\<close>. The comparison is elementwise after broadcasting: an
  array of two elements is compared position by position, an array of one element is
  compared with both 0 and 1. For any other length the shapes do not broadcast; with
  the notebook's kernel (Python 3.8, hence numpy before 1.25) the comparison then
  answers the plain \<open>False\<close> and \<open>.all()\<close> on it raises \<open>AttributeError\<close> (later numpy
  versions raise in the comparison itself).
\<close>

definition eq_01_all :: "int list \<Rightarrow> error + bool" where
  "eq_01_all arr =
     (case arr of
        [u] \<Rightarrow> Inr (u = 0 \<and> u = 1)
      | [u, v] \<Rightarrow> Inr (u = 0 \<and> v = 1)
      | _ \<Rightarrow> Inl AttributeError)"

text \<open>Line 79: \<open>(df["converted"].unique() == [0, 1]).all()\<close>; the value printed.\<close>

definition check_converted :: "dataframe \<Rightarrow> error + bool" where
  "check_converted df = eq_01_all (unique (map converted df))"


section \<open>The group extraction cell\<close>

text \<open>
  \<open>Series.value_counts()\<close>: one entry per distinct label with its number of rows, sorted
  by that number, largest first; the sort is stable, so labels with equal counts keep
  their order of first appearance.
\<close>

definition count_of :: "string list \<Rightarrow> string \<Rightarrow> nat" where
  "count_of labels l = length (filter (\<lambda>x. x = l) labels)"

definition value_counts :: "string list \<Rightarrow> (string \<times> nat) list" where
  "value_counts labels =
     sort_key (\<lambda>(l, n). - int n) (map (\<lambda>l. (l, count_of labels l)) (unique labels))"

text \<open>
  \<open>series[i]\<close> with an integer \<open>i\<close> on a Series whose index holds strings (the group
  labels): pandas falls back to the position.
\<close>

definition iloc :: "'a list \<Rightarrow> nat \<Rightarrow> error + 'a" where
  "iloc xs i = (if i < length xs then Inr (xs ! i) else Inl IndexError)"

text \<open>
  Lines 164 to 167: \<open>groupby(by=['group'], as_index=False)\<close> with the aggregates
  \<open>count\<close> and \<open>sum\<close> of \<open>converted\<close>, and the added column \<open>conv\<close>. The result has one
  row per label, the labels sorted ascending, and the row index 0, 1, ...
\<close>

record cr_row =
  cr_index :: nat
  cr_group :: string
  cr_count :: nat
  cr_sum :: int
  cr_conv :: real

definition groupby_agg :: "dataframe \<Rightarrow> cr_row list" where
  "groupby_agg df =
     map (\<lambda>(i, g).
        let members = filter (\<lambda>r. group_label r = g) df;
            n = length members;
            s = sum_list (map converted members)
        in \<lparr>cr_index = i, cr_group = g, cr_count = n, cr_sum = s,
            cr_conv = real_of_int s / real n\<rparr>)
       (enumerate 0 (sort (unique (map group_label df))))"

text \<open>
  \<open>cr[cr.group == g].conv[i]\<close>: the rows of group \<open>g\<close> keep their index, and \<open>[i]\<close> on
  the integer index is a lookup by index label, which raises \<open>KeyError\<close> when no
  selected row carries the label \<open>i\<close>.
\<close>

definition conv_loc :: "cr_row list \<Rightarrow> string \<Rightarrow> nat \<Rightarrow> error + real" where
  "conv_loc cr g i =
     (case filter (\<lambda>r. cr_index r = i) (filter (\<lambda>r. cr_group r = g) cr) of
        [] \<Rightarrow> Inl KeyError
      | r # _ \<Rightarrow> Inr (cr_conv r))"

text \<open>
  Lines 157 to 169. The variables \<open>a\<close> and \<open>b\<close> of the cell are the fields \<open>label_a\<close> and
  \<open>label_b\<close>; unpacking \<open>unique()\<close> into two names raises \<open>ValueError\<close> unless there are
  exactly two labels. The four other fields are the arguments that line 206 passes to
  \<open>get_pvalue\<close>.
\<close>

record extraction =
  label_a :: string
  label_b :: string
  a_size :: nat
  b_size :: nat
  a_conv :: real
  b_conv :: real

definition extract_groups :: "dataframe \<Rightarrow> error + extraction" where
  "extract_groups df =
     (case unique (map group_label df) of
        [a, b] \<Rightarrow>
          (case iloc (value_counts (map group_label df)) 0 of
             Inl e \<Rightarrow> Inl e
           | Inr (l0, size0) \<Rightarrow>
          (case iloc (value_counts (map group_label df)) 1 of
             Inl e \<Rightarrow> Inl e
           | Inr (l1, size1) \<Rightarrow>
          (let cr = groupby_agg df in
           case conv_loc cr a 0 of
             Inl e \<Rightarrow> Inl e
           | Inr conv0 \<Rightarrow>
          (case conv_loc cr b 1 of
             Inl e \<Rightarrow> Inl e
           | Inr conv1 \<Rightarrow>
             Inr \<lparr>label_a = a, label_b = b, a_size = size0, b_size = size1,
                  a_conv = conv0, b_conv = conv1\<rparr>))))
      | _ \<Rightarrow> Inl ValueError)"


section \<open>Properties of the distribution function\<close>

lemma gauss_series_sums: "(\<lambda>n. gauss_coeff n * x ^ n) sums exp (- (x\<^sup>2) / 2)"
proof -
  let ?y = "- (x\<^sup>2) / 2"
  have e: "(\<lambda>k. ?y ^ k / fact k) sums exp ?y"
    using exp_converges [of ?y] by (simp only: real_scaleR_def divide_inverse_commute)
  have z: "(\<lambda>k::nat. 0::real) sums 0" by simp
  have "(\<lambda>n. if even n then ?y ^ (n div 2) / fact (n div 2) else (0::real)) sums (0 + exp ?y)"
    using sums_if [OF z e] by simp
  moreover have "(\<lambda>n. if even n then ?y ^ (n div 2) / fact (n div 2) else (0::real))
      = (\<lambda>n. gauss_coeff n * x ^ n)"
  proof
    fix n :: nat
    show "(if even n then ?y ^ (n div 2) / fact (n div 2) else (0::real)) = gauss_coeff n * x ^ n"
    proof (cases "even n")
      case True
      then obtain k where k: "n = 2 * k" by (auto elim: evenE)
      have "?y ^ k = (- 1 / 2) ^ k * x ^ (2 * k)"
        by (simp add: power_mult power_mult_distrib power_divide flip: power_mult_distrib)
      then show ?thesis using k by (simp add: gauss_coeff_def)
    next
      case False
      then show ?thesis by (simp add: gauss_coeff_def)
    qed
  qed
  ultimately show ?thesis by simp
qed

lemma DERIV_gauss_int: "DERIV gauss_int x :> exp (- (x\<^sup>2) / 2)"
proof -
  have sm: "summable (\<lambda>n. gauss_coeff n / real (Suc n) * real (Suc n) * y ^ n)" for y
    using gauss_series_sums [of y] by (simp add: sums_iff del: of_nat_Suc)
  have "DERIV (\<lambda>x. \<Sum>n. gauss_coeff n / real (Suc n) * x ^ Suc n) x
          :> (\<Sum>n. gauss_coeff n / real (Suc n) * real (Suc n) * x ^ n)"
    by (rule DERIV_power_series' [where R = "\<bar>x\<bar> + 1"]) (use sm in auto)
  moreover have "(\<Sum>n. gauss_coeff n / real (Suc n) * real (Suc n) * x ^ n) = exp (- (x\<^sup>2) / 2)"
    using gauss_series_sums [of x] by (simp add: sums_iff del: of_nat_Suc)
  moreover have "gauss_int = (\<lambda>x. \<Sum>n. gauss_coeff n / real (Suc n) * x ^ Suc n)"
    by (rule ext) (simp add: gauss_int_def)
  ultimately show ?thesis by simp
qed

lemma gauss_int_0: "gauss_int 0 = 0"
  by (simp add: gauss_int_def)

lemma gauss_int_minus: "gauss_int (- x) = - gauss_int x"
proof -
  have "DERIV (\<lambda>t. gauss_int (- t) + gauss_int t) t :> 0" for t
    by (rule derivative_eq_intros DERIV_gauss_int DERIV_chain2 [OF DERIV_gauss_int] | simp)+
  then have "gauss_int (- x) + gauss_int x = gauss_int (- 0) + gauss_int 0"
    using DERIV_isconst_all [of "\<lambda>t. gauss_int (- t) + gauss_int t" x 0] by blast
  then show ?thesis by (simp add: gauss_int_0)
qed

text \<open>
  The derivative of \<open>Phi\<close> is the standard normal density and \<open>Phi 0 = 1 / 2\<close>: the two
  facts that determine the standard normal distribution function.
\<close>

lemma DERIV_Phi: "DERIV Phi x :> exp (- (x\<^sup>2) / 2) / sqrt (2 * pi)"
proof -
  have "DERIV (\<lambda>x. gauss_int x / sqrt (2 * pi)) x :> exp (- (x\<^sup>2) / 2) / sqrt (2 * pi)"
    by (rule DERIV_cdivide [OF DERIV_gauss_int])
  then have "DERIV (\<lambda>x. 1 / 2 + gauss_int x / sqrt (2 * pi)) x
      :> 0 + exp (- (x\<^sup>2) / 2) / sqrt (2 * pi)"
    by (intro DERIV_add DERIV_const)
  moreover have "Phi = (\<lambda>x. 1 / 2 + gauss_int x / sqrt (2 * pi))"
    by (rule ext) (simp add: Phi_def)
  ultimately show ?thesis by simp
qed

lemma Phi_0: "Phi 0 = 1 / 2"
  by (simp add: Phi_def gauss_int_0)

lemma Phi_strict_mono: "x < y \<Longrightarrow> Phi x < Phi y"
proof (rule DERIV_pos_imp_increasing [of x y Phi])
  fix t
  have "0 < exp (- (t\<^sup>2) / 2) / sqrt (2 * pi)" by simp
  then show "\<exists>d. (Phi has_real_derivative d) (at t) \<and> 0 < d"
    using DERIV_Phi [of t] by blast
qed

lemma Phi_mono: "x \<le> y \<Longrightarrow> Phi x \<le> Phi y"
  using Phi_strict_mono [of x y] by (cases "x = y") simp_all

lemma Phi_minus: "Phi (- x) = 1 - Phi x"
  by (simp add: Phi_def gauss_int_minus)


subsection \<open>Bounds: \<open>0 \<le> Phi x \<le> 1\<close>\<close>

text \<open>
  For a function with an antitone derivative, the increment over \<open>[0, c]\<close> lies between
  the right and the left Riemann sums of the derivative.
\<close>

lemma step_bounds:
  fixes f f' :: "real \<Rightarrow> real"
  assumes ab: "a \<le> b"
    and d: "\<And>t. a \<le> t \<Longrightarrow> t \<le> b \<Longrightarrow> DERIV f t :> f' t"
    and anti: "\<And>s t. a \<le> s \<Longrightarrow> s \<le> t \<Longrightarrow> t \<le> b \<Longrightarrow> f' t \<le> f' s"
  shows "(b - a) * f' b \<le> f b - f a \<and> f b - f a \<le> (b - a) * f' a"
proof (cases "a = b")
  case True
  then show ?thesis by simp
next
  case False
  with ab have lt: "a < b" by simp
  from MVT2 [OF lt d] obtain z where z: "a < z" "z < b" "f b - f a = (b - a) * f' z"
    by blast
  have "f' b \<le> f' z" "f' z \<le> f' a"
    using anti [of z b] anti [of a z] z by simp_all
  then have "(b - a) * f' b \<le> (b - a) * f' z" "(b - a) * f' z \<le> (b - a) * f' a"
    using lt by (simp_all add: mult_left_mono)
  with z(3) show ?thesis by simp
qed

lemma riemann_bounds:
  fixes f f' :: "real \<Rightarrow> real"
  assumes c: "0 \<le> c" and N: "0 < N"
    and d: "\<And>t. 0 \<le> t \<Longrightarrow> t \<le> c \<Longrightarrow> DERIV f t :> f' t"
    and anti: "\<And>s t. 0 \<le> s \<Longrightarrow> s \<le> t \<Longrightarrow> t \<le> c \<Longrightarrow> f' t \<le> f' s"
  shows "c / real N * (\<Sum>k<N. f' (c * real (Suc k) / real N)) \<le> f c - f 0
    \<and> f c - f 0 \<le> c / real N * (\<Sum>k<N. f' (c * real k / real N))"
proof -
  let ?p = "\<lambda>k::nat. c * real k / real N"
  have tel: "(\<Sum>k<N. f (?p (Suc k)) - f (?p k)) = f (?p N) - f (?p 0)"
    by (rule sum_lessThan_telescope)
  have pN: "?p N = c" "?p 0 = 0" using N by simp_all
  have step: "c / real N * f' (?p (Suc k)) \<le> f (?p (Suc k)) - f (?p k)
      \<and> f (?p (Suc k)) - f (?p k) \<le> c / real N * f' (?p k)" if k: "k < N" for k
  proof -
    have le: "?p k \<le> ?p (Suc k)"
      using c N by (simp add: divide_right_mono mult_left_mono)
    have lo: "0 \<le> ?p k" using c by simp
    have "real (Suc k) \<le> real N" using k by simp
    then have "c * real (Suc k) \<le> c * real N" using c by (rule mult_left_mono)
    then have hi: "?p (Suc k) \<le> c" using N by (simp add: field_simps)
    have diff: "?p (Suc k) - ?p k = c / real N"
      using N by (simp add: field_simps)
    have "(?p (Suc k) - ?p k) * f' (?p (Suc k)) \<le> f (?p (Suc k)) - f (?p k)
      \<and> f (?p (Suc k)) - f (?p k) \<le> (?p (Suc k) - ?p k) * f' (?p k)"
    proof (rule step_bounds [OF le])
      fix t assume "?p k \<le> t" "t \<le> ?p (Suc k)"
      then show "DERIV f t :> f' t" using lo hi by (intro d) simp_all
    next
      fix s t assume "?p k \<le> s" "s \<le> t" "t \<le> ?p (Suc k)"
      then show "f' t \<le> f' s" using lo hi by (intro anti) simp_all
    qed
    then show ?thesis unfolding diff .
  qed
  have "(\<Sum>k<N. c / real N * f' (?p (Suc k))) \<le> (\<Sum>k<N. f (?p (Suc k)) - f (?p k))"
    by (rule sum_mono) (use step in simp)
  moreover have "(\<Sum>k<N. f (?p (Suc k)) - f (?p k)) \<le> (\<Sum>k<N. c / real N * f' (?p k))"
    by (rule sum_mono) (use step in simp)
  ultimately show ?thesis
    unfolding tel pN by (simp only: sum_distrib_left)
qed

text \<open>
  With \<open>E = gauss_int\<close>, the function \<open>E\<^sup>2 + gauss_aux N\<close> is nonincreasing on the
  nonnegative reals, and its value at 0 is a Riemann sum of \<open>2 / (1 + t\<^sup>2)\<close> over
  \<open>[0, 1]\<close>, which is at most \<open>\<pi> / 2 + 1 / N\<close>.
\<close>

lemma gauss_pdf_antimono: "0 \<le> s \<Longrightarrow> s \<le> t \<Longrightarrow> gauss_pdf t \<le> gauss_pdf s"
proof -
  assume "0 \<le> s" "s \<le> t"
  then have "s\<^sup>2 \<le> t\<^sup>2" by (simp add: power_mono)
  then show ?thesis by (simp add: gauss_pdf_def)
qed

lemma gauss_int_le_riemann:
  assumes x: "0 \<le> x" and N: "0 < N"
  shows "gauss_int x \<le> x / real N * (\<Sum>k<N. gauss_pdf (x * real k / real N))"
proof -
  have "gauss_int x - gauss_int 0 \<le> x / real N * (\<Sum>k<N. gauss_pdf (x * real k / real N))"
    using riemann_bounds [of x N gauss_int gauss_pdf, OF x N]
      DERIV_gauss_int gauss_pdf_antimono
    by (simp add: gauss_pdf_def)
  then show ?thesis by (simp add: gauss_int_0)
qed

lemma DERIV_gauss_aux:
  assumes N: "0 < N"
  shows "DERIV (gauss_aux N) x :>
    - 2 * gauss_pdf x * (x / real N * (\<Sum>k<N. gauss_pdf (x * real k / real N)))"
proof -
  have tm: "DERIV (\<lambda>x. exp (- (x\<^sup>2) * a / 2) / a) x :> - x * exp (- (x\<^sup>2) * a / 2)"
    if a: "0 < a" for a :: real
    by (rule derivative_eq_intros | use a in simp)+
  let ?a = "\<lambda>k::nat. 1 + (real k / real N)\<^sup>2"
  have apos: "0 < ?a k" for k
    by (rule add_pos_nonneg) simp_all
  have "DERIV (\<lambda>x. \<Sum>k<N. exp (- (x\<^sup>2) * ?a k / 2) / ?a k) x
      :> (\<Sum>k<N. - x * exp (- (x\<^sup>2) * ?a k / 2))"
    by (rule DERIV_sum) (rule tm [OF apos])
  then have "DERIV (\<lambda>x. 2 / real N * (\<Sum>k<N. exp (- (x\<^sup>2) * ?a k / 2) / ?a k)) x
      :> 2 / real N * (\<Sum>k<N. - x * exp (- (x\<^sup>2) * ?a k / 2))"
    by (rule DERIV_cmult)
  moreover have "gauss_aux N = (\<lambda>x. 2 / real N * (\<Sum>k<N. exp (- (x\<^sup>2) * ?a k / 2) / ?a k))"
    by (rule ext) (simp add: gauss_aux_def)
  moreover have "2 / real N * (\<Sum>k<N. - x * exp (- (x\<^sup>2) * ?a k / 2))
      = - 2 * gauss_pdf x * (x / real N * (\<Sum>k<N. gauss_pdf (x * real k / real N)))"
  proof -
    have e0: "exp (- (x\<^sup>2) * (1 + s\<^sup>2) / 2) = gauss_pdf x * gauss_pdf (x * s)" for s :: real
    proof -
      have "- (x\<^sup>2) * (1 + s\<^sup>2) / 2 = - (x\<^sup>2) / 2 + - ((x * s)\<^sup>2) / 2"
        by (simp add: field_simps)
      then show ?thesis by (simp only: gauss_pdf_def exp_add)
    qed
    have e: "exp (- (x\<^sup>2) * ?a k / 2) = gauss_pdf x * gauss_pdf (x * real k / real N)" for k
      using e0 [of "real k / real N"] by simp
    have "(\<Sum>k<N. - x * exp (- (x\<^sup>2) * ?a k / 2))
        = - x * gauss_pdf x * (\<Sum>k<N. gauss_pdf (x * real k / real N))"
      unfolding e by (simp add: sum_distrib_left mult.assoc)
    then show ?thesis by simp
  qed
  ultimately show ?thesis by simp
qed

lemma gauss_aux_nonneg: "0 \<le> gauss_aux N x"
  unfolding gauss_aux_def
  by (intro mult_nonneg_nonneg sum_nonneg divide_nonneg_nonneg add_nonneg_nonneg) simp_all

lemma gauss_aux_0:
  assumes N: "0 < N"
  shows "gauss_aux N 0 \<le> pi / 2 + 1 / real N"
proof -
  let ?f' = "\<lambda>t::real. inverse (1 + t\<^sup>2)"
  have anti: "?f' t \<le> ?f' s" if "0 \<le> s" "s \<le> t" for s t :: real
  proof -
    have "s\<^sup>2 \<le> t\<^sup>2" using that by (simp add: power_mono)
    moreover have "0 < 1 + s\<^sup>2" by (rule add_pos_nonneg) simp_all
    ultimately show ?thesis by (simp add: le_imp_inverse_le)
  qed
  have "1 / real N * (\<Sum>k<N. ?f' (1 * real (Suc k) / real N)) \<le> arctan 1 - arctan 0"
    using riemann_bounds [of 1 N arctan ?f'] N anti DERIV_arctan by simp
  then have up: "1 / real N * (\<Sum>k<N. ?f' (real (Suc k) / real N)) \<le> pi / 4"
    by (simp add: arctan_one)
  have "(\<Sum>k<N. ?f' (real (Suc k) / real N) - ?f' (real k / real N))
      = ?f' (real N / real N) - ?f' (real 0 / real N)"
    by (rule sum_lessThan_telescope)
  then have "(\<Sum>k<N. ?f' (real (Suc k) / real N)) - (\<Sum>k<N. ?f' (real k / real N)) = - 1 / 2"
    using N by (simp add: sum_subtractf)
  then have "(\<Sum>k<N. ?f' (real k / real N)) = (\<Sum>k<N. ?f' (real (Suc k) / real N)) + 1 / 2"
    by simp
  then have "1 / real N * (\<Sum>k<N. ?f' (real k / real N))
      = 1 / real N * (\<Sum>k<N. ?f' (real (Suc k) / real N)) + 1 / (2 * real N)"
    by (simp add: algebra_simps)
  with up have "1 / real N * (\<Sum>k<N. ?f' (real k / real N)) \<le> pi / 4 + 1 / (2 * real N)"
    by simp
  then have "2 * (1 / real N * (\<Sum>k<N. ?f' (real k / real N))) \<le> 2 * (pi / 4 + 1 / (2 * real N))"
    by (rule mult_left_mono) simp
  moreover have "gauss_aux N 0 = 2 * (1 / real N * (\<Sum>k<N. ?f' (real k / real N)))"
    by (simp add: gauss_aux_def inverse_eq_divide)
  ultimately show ?thesis by simp
qed

lemma gauss_int_sq_le:
  assumes x: "0 \<le> x" and N: "0 < N"
  shows "(gauss_int x)\<^sup>2 \<le> pi / 2 + 1 / real N"
proof -
  let ?F = "\<lambda>t. (gauss_int t)\<^sup>2 + gauss_aux N t"
  let ?R = "\<lambda>t. t / real N * (\<Sum>k<N. gauss_pdf (t * real k / real N))"
  have d: "DERIV ?F t :> 2 * gauss_pdf t * (gauss_int t - ?R t)" for t
  proof -
    have "DERIV (\<lambda>t. (gauss_int t)\<^sup>2) t :> 2 * gauss_int t * gauss_pdf t"
      unfolding gauss_pdf_def
      by (rule derivative_eq_intros DERIV_gauss_int | simp)+
    then have "DERIV ?F t :> 2 * gauss_int t * gauss_pdf t + - 2 * gauss_pdf t * ?R t"
      by (rule DERIV_add [OF _ DERIV_gauss_aux [OF N]])
    then show ?thesis by (simp add: algebra_simps)
  qed
  have "?F x \<le> ?F 0"
  proof (rule DERIV_nonpos_imp_nonincreasing [OF x])
    fix t :: real assume t: "0 \<le> t" "t \<le> x"
    have "0 \<le> 2 * gauss_pdf t" by (simp add: gauss_pdf_def)
    moreover have "gauss_int t - ?R t \<le> 0"
      using gauss_int_le_riemann [OF t(1) N] by simp
    ultimately have "2 * gauss_pdf t * (gauss_int t - ?R t) \<le> 0"
      by (rule mult_nonneg_nonpos)
    with d [of t] show "\<exists>y. DERIV ?F t :> y \<and> y \<le> 0" by blast
  qed
  then have "(gauss_int x)\<^sup>2 + gauss_aux N x \<le> gauss_aux N 0"
    by (simp add: gauss_int_0)
  with gauss_aux_nonneg [of N x] gauss_aux_0 [OF N] show ?thesis by simp
qed

lemma gauss_int_nonneg: "0 \<le> x \<Longrightarrow> 0 \<le> gauss_int x"
proof -
  assume x: "0 \<le> x"
  have "gauss_int 0 \<le> gauss_int x"
  proof (rule DERIV_nonneg_imp_nondecreasing [OF x])
    fix t :: real
    have "0 \<le> exp (- (t\<^sup>2) / 2)" by simp
    with DERIV_gauss_int [of t] show "\<exists>y. DERIV gauss_int t :> y \<and> 0 \<le> y" by blast
  qed
  then show ?thesis by (simp add: gauss_int_0)
qed

lemma gauss_int_le: 
  assumes x: "0 \<le> x"
  shows "gauss_int x \<le> sqrt (pi / 2)"
proof -
  have sq: "(gauss_int x)\<^sup>2 \<le> pi / 2"
  proof (rule ccontr)
    assume "\<not> (gauss_int x)\<^sup>2 \<le> pi / 2"
    then have "0 < (gauss_int x)\<^sup>2 - pi / 2" by simp
    then obtain n where n: "inverse (real (Suc n)) < (gauss_int x)\<^sup>2 - pi / 2"
      using reals_Archimedean by blast
    have "(gauss_int x)\<^sup>2 \<le> pi / 2 + 1 / real (Suc n)"
      by (rule gauss_int_sq_le [OF x]) simp
    with n show False by (simp add: inverse_eq_divide)
  qed
  have "gauss_int x = sqrt ((gauss_int x)\<^sup>2)"
    using gauss_int_nonneg [OF x] by simp
  also have "\<dots> \<le> sqrt (pi / 2)"
    using sq by (simp only: real_sqrt_le_iff)
  finally show ?thesis .
qed

lemma Phi_le_1: "Phi x \<le> 1"
proof (cases "0 \<le> x")
  case True
  have "gauss_int x / sqrt (2 * pi) \<le> sqrt (pi / 2) / sqrt (2 * pi)"
    using gauss_int_le [OF True] by (simp add: divide_right_mono)
  also have "sqrt (pi / 2) / sqrt (2 * pi) = 1 / 2"
  proof -
    have "sqrt (pi / 2) / sqrt (2 * pi) = sqrt ((pi / 2) / (2 * pi))"
      by (simp only: real_sqrt_divide)
    also have "(pi / 2) / (2 * pi) = (1 / 2)\<^sup>2"
      by (simp add: power2_eq_square)
    also have "sqrt ((1 / 2)\<^sup>2) = 1 / 2" by simp
    finally show ?thesis .
  qed
  finally have "gauss_int x / sqrt (2 * pi) \<le> 1 / 2" .
  then show ?thesis unfolding Phi_def by linarith
next
  case False
  then have "Phi x < Phi 0" by (intro Phi_strict_mono) simp
  then show ?thesis by (simp add: Phi_0)
qed

lemma Phi_ge_0: "0 \<le> Phi x"
  using Phi_le_1 [of "- x"] by (simp add: Phi_minus)

section \<open>Evaluating \<open>get_pvalue\<close>\<close>

lemma Phi_le_half: "z \<le> 0 \<Longrightarrow> Phi z \<le> 1 / 2"
  using Phi_mono [of z 0] by (simp add: Phi_0)

lemma spec_scale_nonneg: "0 \<le> r \<Longrightarrow> r \<le> 1 \<Longrightarrow> 0 < n \<Longrightarrow> 0 \<le> spec_scale r n"
  by (simp add: spec_scale_def)

lemma valid_input_radicand:
  assumes "valid_input c t nc nt"
  shows "0 < spec_scale c nc + spec_scale t nt"
proof -
  have "0 \<le> spec_scale c nc" "0 \<le> spec_scale t nt"
    using assms by (simp_all add: valid_input_def spec_scale_nonneg)
  moreover have "spec_scale c nc + spec_scale t nt \<noteq> 0"
    using assms by (auto simp add: valid_input_def spec_standard_error_def)
  ultimately show ?thesis by linarith
qed

text \<open>Away from the errors, the code's \<open>* (1 / size)\<close> and \<open>** 0.5\<close> are the
  specification's division and square root.\<close>

lemma get_pvalue_returns:
  assumes "nc \<noteq> 0" "nt \<noteq> 0" and "0 \<le> spec_scale c nc + spec_scale t nt"
  shows "get_pvalue c t nc nt =
    (let p = fmul 2 (norm_cdf (spec_lift c t) 0 (spec_standard_error c t nc nt))
     in Inr (p, if fge p 0.05 then ''Not Significant'' else ''Significant Result''))"
proof -
  have eq: "fadd (fmul (c * (1 - c)) (np_recip nc)) (fmul (t * (1 - t)) (np_recip nt))
      = Fin (spec_scale c nc + spec_scale t nt)"
    using assms(1,2) by (simp add: np_recip_def spec_scale_def)
  show ?thesis
    unfolding get_pvalue_def Let_def eq
    using assms by (simp add: powr_half_sqrt spec_lift_def spec_standard_error_def)
qed

lemma get_pvalue_pyint_eq:
  assumes "nc \<noteq> 0" "nt \<noteq> 0"
  shows "get_pvalue_pyint c t nc nt = get_pvalue c t nc nt"
  using assms by (simp add: get_pvalue_pyint_def get_pvalue_def py_recip_def np_recip_def Let_def)

lemma get_pvalue_nondegenerate:
  assumes "nc \<noteq> 0" "nt \<noteq> 0" and "0 < spec_scale c nc + spec_scale t nt"
  shows "get_pvalue c t nc nt =
    (let p = 2 * Phi (spec_lift c t / spec_standard_error c t nc nt)
     in Inr (Fin p, if 0.05 \<le> p then ''Not Significant'' else ''Significant Result''))"
proof -
  have "0 < spec_standard_error c t nc nt"
    using assms(3) by (simp add: spec_standard_error_def)
  then show ?thesis
    using get_pvalue_returns [of nc nt c t] assms
    by (simp add: norm_cdf_def Let_def)
qed

lemma get_pvalue_degenerate:
  assumes "nc \<noteq> 0" "nt \<noteq> 0" and "spec_scale c nc + spec_scale t nt = 0"
  shows "get_pvalue c t nc nt = Inr (NaN, ''Significant Result'')"
  using get_pvalue_returns [of nc nt c t] assms
  by (simp add: norm_cdf_def Let_def spec_standard_error_def)

lemma p_value_range:
  assumes "0 < se"
  shows "0 \<le> 2 * Phi (spec_lift c t / se)" and "2 * Phi (spec_lift c t / se) \<le> 1"
proof -
  show "0 \<le> 2 * Phi (spec_lift c t / se)"
    using Phi_ge_0 [of "spec_lift c t / se"] by simp
  have "spec_lift c t / se \<le> 0"
    using assms by (simp add: spec_lift_def divide_le_0_iff)
  then show "2 * Phi (spec_lift c t / se) \<le> 1"
    using Phi_le_half [of "spec_lift c t / se"] by simp
qed

lemma fadd_commute: "fadd x y = fadd y x"
  by (cases x; cases y) simp_all

text \<open>A zero size: the scale of that group is infinite, or NaN when its rate is 0 or 1.\<close>

lemma scale_zero_size:
  assumes "0 \<le> r" "r \<le> 1"
  shows "fmul (r * (1 - r)) (np_recip 0) = (if r = 0 \<or> r = 1 then NaN else PInf)"
proof (cases "r = 0 \<or> r = 1")
  case True
  then show ?thesis by (auto simp add: np_recip_def)
next
  case False
  with assms have "0 < r" "0 < 1 - r" by simp_all
  then have "0 < r * (1 - r)" by (rule mult_pos_pos)
  with False show ?thesis by (simp add: np_recip_def)
qed

lemma scale_nonzero_size:
  "n \<noteq> 0 \<Longrightarrow> fmul (r * (1 - r)) (np_recip n) = Fin (spec_scale r n)"
  by (simp add: np_recip_def spec_scale_def)

lemma get_pvalue_scale_nan:
  assumes "fadd (fmul (c * (1 - c)) (np_recip nc)) (fmul (t * (1 - t)) (np_recip nt)) = NaN"
  shows "get_pvalue c t nc nt = Inr (NaN, ''Significant Result'')"
  unfolding get_pvalue_def Let_def assms by simp

lemma get_pvalue_scale_inf:
  assumes "fadd (fmul (c * (1 - c)) (np_recip nc)) (fmul (t * (1 - t)) (np_recip nt)) = PInf"
  shows "get_pvalue c t nc nt = Inr (Fin 1, ''Not Significant'')"
  unfolding get_pvalue_def Let_def assms by (simp add: Phi_0)

section \<open>Claims about \<open>get_pvalue\<close>\<close>

text \<open>
  C1. For all inputs with positive sizes (and rates in \<open>[0, 1]\<close>, the inputs of the
  specification), \<open>get_pvalue\<close> raises nothing and returns as p-value twice
  \<open>norm.cdf\<close> at \<open>lift = - \<bar>rate_test - rate_control\<bar>\<close> with mean 0 and scale the
  pooled standard error \<open>sqrt (scale_control + scale_test)\<close>, the scales being
  \<open>rate * (1 - rate) / size\<close>; where the standard error is not zero this is
  \<open>2 * Phi (lift / standard_error)\<close>.
\<close>

theorem get_pvalue_formula:
  assumes "0 < con_size" "0 < test_size"
    and "0 \<le> con_conv" "con_conv \<le> 1" "0 \<le> test_conv" "test_conv \<le> 1"
  shows "returned_p (get_pvalue con_conv test_conv con_size test_size) =
      Some (fmul 2 (norm_cdf (spec_lift con_conv test_conv) 0
        (spec_standard_error con_conv test_conv con_size test_size)))
    \<and> (spec_standard_error con_conv test_conv con_size test_size \<noteq> 0 \<longrightarrow>
      returned_p (get_pvalue con_conv test_conv con_size test_size) =
      Some (Fin (2 * Phi (spec_lift con_conv test_conv /
        spec_standard_error con_conv test_conv con_size test_size))))"
proof -
  have nn: "0 \<le> spec_scale con_conv con_size + spec_scale test_conv test_size"
    using assms by (simp add: spec_scale_nonneg)
  have r: "returned_p (get_pvalue con_conv test_conv con_size test_size) =
      Some (fmul 2 (norm_cdf (spec_lift con_conv test_conv) 0
        (spec_standard_error con_conv test_conv con_size test_size)))"
    using get_pvalue_returns [of con_size test_size con_conv test_conv] assms(1,2) nn
    by (simp add: Let_def)
  have "0 \<le> spec_standard_error con_conv test_conv con_size test_size"
    using nn by (simp add: spec_standard_error_def)
  then show ?thesis
    unfolding r by (auto simp add: norm_cdf_def)
qed

theorem get_pvalue_formula_witness:
  "(0::int) < 1000 \<and> (0::real) \<le> 1 / 10 \<and> (1 / 10 :: real) \<le> 1
   \<and> (0::real) \<le> 13 / 100 \<and> (13 / 100 :: real) \<le> 1
   \<and> spec_standard_error (1 / 10) (13 / 100) 1000 1000 \<noteq> 0
   \<and> returned_p (get_pvalue (1 / 10) (13 / 100) 1000 1000) =
      Some (Fin (2 * Phi (spec_lift (1 / 10) (13 / 100) /
        spec_standard_error (1 / 10) (13 / 100) 1000 1000)))"
proof -
  have se: "spec_standard_error (1 / 10) (13 / 100) 1000 1000 \<noteq> 0"
    by (simp add: spec_standard_error_def spec_scale_def)
  have "spec_standard_error (1 / 10) (13 / 100) 1000 1000 \<noteq> 0 \<longrightarrow>
      returned_p (get_pvalue (1 / 10) (13 / 100) 1000 1000) =
      Some (Fin (2 * Phi (spec_lift (1 / 10) (13 / 100) /
        spec_standard_error (1 / 10) (13 / 100) 1000 1000)))"
    by (rule conjunct2 [OF get_pvalue_formula [of 1000 1000 "1 / 10" "13 / 100"]]) simp_all
  with se show ?thesis by simp
qed

text \<open>
  C2 (as stated, refuted). The claim asks for an \<open>InvalidInput\<close> error when a size is
  zero. The code has no such error. With the \<open>numpy.int64\<close> sizes the notebook passes,
  a zero control size raises nothing at all and the call silently returns the p-value
  1.0; with a Python \<open>int\<close> the division raises \<open>ZeroDivisionError\<close>.
\<close>

theorem zero_size_counterexample:
  "get_pvalue (1 / 10) (1 / 5) 0 10 = Inr (Fin 1, ''Not Significant'')
   \<and> get_pvalue (1 / 10) (1 / 5) 0 10 \<noteq> Inl InvalidInput
   \<and> get_pvalue_pyint (1 / 10) (1 / 5) 0 10 = Inl ZeroDivisionError
   \<and> get_pvalue_pyint (1 / 10) (1 / 5) 0 10 \<noteq> Inl InvalidInput"
  by (simp add: get_pvalue_def get_pvalue_pyint_def np_recip_def py_recip_def Phi_0)

text \<open>
  C2 (amended). For every call of \<open>get_pvalue\<close> with rates in \<open>[0, 1]\<close> in which
  \<open>con_size = 0\<close> or \<open>test_size = 0\<close>, no \<open>InvalidInput\<close> error is raised. With
  \<open>numpy.int64\<close> sizes, as the notebook passes them, nothing is raised: \<open>1 / size\<close> is
  \<open>inf\<close>, and the call silently returns the p-value NaN when a group of size zero has
  the rate 0 or 1, and the p-value 1.0 otherwise. With Python \<open>int\<close> sizes the division
  raises \<open>ZeroDivisionError\<close>.
\<close>

theorem zero_size_silent:
  assumes "con_size = 0 \<or> test_size = 0"
    and "0 \<le> con_conv" "con_conv \<le> 1" "0 \<le> test_conv" "test_conv \<le> 1"
  shows "returned_p (get_pvalue con_conv test_conv con_size test_size) =
      Some (if (con_size = 0 \<and> (con_conv = 0 \<or> con_conv = 1))
               \<or> (test_size = 0 \<and> (test_conv = 0 \<or> test_conv = 1))
            then NaN else Fin 1)
    \<and> get_pvalue_pyint con_conv test_conv con_size test_size = Inl ZeroDivisionError"
proof -
  let ?s1 = "fmul (con_conv * (1 - con_conv)) (np_recip con_size)"
  let ?s2 = "fmul (test_conv * (1 - test_conv)) (np_recip test_size)"
  let ?nan = "(con_size = 0 \<and> (con_conv = 0 \<or> con_conv = 1))
               \<or> (test_size = 0 \<and> (test_conv = 0 \<or> test_conv = 1))"
  have s1: "?s1 = (if con_size = 0 then (if con_conv = 0 \<or> con_conv = 1 then NaN else PInf)
      else Fin (spec_scale con_conv con_size))"
    using scale_zero_size [OF assms(2,3)] scale_nonzero_size [of con_size con_conv]
    by simp
  have s2: "?s2 = (if test_size = 0 then (if test_conv = 0 \<or> test_conv = 1 then NaN else PInf)
      else Fin (spec_scale test_conv test_size))"
    using scale_zero_size [OF assms(4,5)] scale_nonzero_size [of test_size test_conv]
    by simp
  have sum: "fadd ?s1 ?s2 = (if ?nan then NaN else PInf)"
    unfolding s1 s2 using assms(1) by auto
  have np: "returned_p (get_pvalue con_conv test_conv con_size test_size) =
      Some (if ?nan then NaN else Fin 1)"
  proof (cases ?nan)
    case True
    with sum have "fadd ?s1 ?s2 = NaN" by simp
    from get_pvalue_scale_nan [OF this] True show ?thesis by simp
  next
    case False
    with sum have "fadd ?s1 ?s2 = PInf" by simp
    from get_pvalue_scale_inf [OF this] False show ?thesis by simp
  qed
  have py: "get_pvalue_pyint con_conv test_conv con_size test_size = Inl ZeroDivisionError"
    using assms(1) by (auto simp add: get_pvalue_pyint_def py_recip_def Let_def)
  from np py show ?thesis by (rule conjI)
qed

theorem zero_size_silent_witness:
  "((10::int) = 0 \<or> (0::int) = 0)
   \<and> (0::real) \<le> 1 / 10 \<and> (1 / 10 :: real) \<le> 1 \<and> (0::real) \<le> 1 \<and> (1::real) \<le> 1
   \<and> returned_p (get_pvalue (1 / 10) 1 10 0) = Some NaN
   \<and> get_pvalue_pyint (1 / 10) 1 10 0 = Inl ZeroDivisionError"
  using zero_size_silent [of 10 0 "1 / 10" 1] by simp

text \<open>
  C3 (as stated, refuted). With both rates 0 the pooled standard error is zero, and the
  call raises no \<open>DegenerateDistribution\<close> error: it returns NaN.
\<close>

theorem zero_standard_error_counterexample:
  "spec_standard_error 0 0 10 10 = 0
   \<and> get_pvalue 0 0 10 10 = Inr (NaN, ''Significant Result'')
   \<and> get_pvalue 0 0 10 10 \<noteq> Inl DegenerateDistribution"
  by (simp add: get_pvalue_def np_recip_def norm_cdf_def spec_standard_error_def
      spec_scale_def)

text \<open>
  C3 (amended). For every input with positive sizes whose pooled standard error is zero,
  \<open>get_pvalue\<close> raises no error and the p-value it returns is NaN: \<open>norm.cdf\<close> is called
  with scale 0 and answers NaN.
\<close>

theorem zero_standard_error_returns_nan:
  assumes "0 < con_size" "0 < test_size"
    and "spec_standard_error con_conv test_conv con_size test_size = 0"
  shows "returned_p (get_pvalue con_conv test_conv con_size test_size) = Some NaN"
proof -
  have "spec_scale con_conv con_size + spec_scale test_conv test_size = 0"
    using assms(3) by (simp add: spec_standard_error_def)
  then show ?thesis
    using get_pvalue_degenerate [of con_size test_size con_conv test_conv] assms(1,2) by simp
qed

theorem zero_standard_error_returns_nan_witness:
  "(0::int) < 5 \<and> (0::int) < 7 \<and> spec_standard_error 1 1 5 7 = 0
   \<and> returned_p (get_pvalue 1 1 5 7) = Some NaN"
proof -
  have se: "spec_standard_error 1 1 5 7 = 0"
    by (simp add: spec_standard_error_def spec_scale_def)
  show ?thesis
    using zero_standard_error_returns_nan [of 5 7 1 1] se by simp
qed

text \<open>
  C4. For all valid inputs (rates in \<open>[0, 1]\<close>, positive sizes, nonzero pooled standard
  error) the call returns a p-value in \<open>[0, 2]\<close>, the message is
  \<open>''Significant Result''\<close> if and only if the p-value is below 0.05, and a p-value of
  exactly 0.05 gives \<open>''Not Significant''\<close>.
\<close>

theorem verdict_threshold:
  assumes "valid_input con_conv test_conv con_size test_size"
  shows "let r = get_pvalue con_conv test_conv con_size test_size;
             p = 2 * Phi (spec_lift con_conv test_conv /
                   spec_standard_error con_conv test_conv con_size test_size)
         in returned_p r = Some (Fin p) \<and> 0 \<le> p \<and> p \<le> 2
            \<and> (returned_msg r = Some ''Significant Result'' \<longleftrightarrow> p < 0.05)
            \<and> (returned_msg r = Some ''Not Significant'' \<longleftrightarrow> \<not> p < 0.05)
            \<and> (p = 0.05 \<longrightarrow> returned_msg r = Some ''Not Significant'')"
proof -
  let ?se = "spec_standard_error con_conv test_conv con_size test_size"
  let ?p = "2 * Phi (spec_lift con_conv test_conv / ?se)"
  have rad: "0 < spec_scale con_conv con_size + spec_scale test_conv test_size"
    by (rule valid_input_radicand [OF assms])
  then have se: "0 < ?se" by (simp add: spec_standard_error_def)
  have nz: "con_size \<noteq> 0" "test_size \<noteq> 0"
    using assms by (simp_all add: valid_input_def)
  have r: "get_pvalue con_conv test_conv con_size test_size =
      Inr (Fin ?p, if 0.05 \<le> ?p then ''Not Significant'' else ''Significant Result'')"
    using get_pvalue_nondegenerate [OF nz rad] by (simp add: Let_def)
  have "0 \<le> ?p" "?p \<le> 1"
    using p_value_range [OF se, of con_conv test_conv] by simp_all
  then show ?thesis
    unfolding Let_def r by auto
qed

theorem verdict_threshold_witness:
  "valid_input (1 / 10) (13 / 100) 1000 1000
   \<and> (let r = get_pvalue (1 / 10) (13 / 100) 1000 1000;
           p = 2 * Phi (spec_lift (1 / 10) (13 / 100) /
                 spec_standard_error (1 / 10) (13 / 100) 1000 1000)
       in returned_p r = Some (Fin p) \<and> 0 \<le> p \<and> p \<le> 2
          \<and> (returned_msg r = Some ''Significant Result'' \<longleftrightarrow> p < 0.05)
          \<and> (returned_msg r = Some ''Not Significant'' \<longleftrightarrow> \<not> p < 0.05)
          \<and> (p = 0.05 \<longrightarrow> returned_msg r = Some ''Not Significant''))"
proof -
  have v: "valid_input (1 / 10) (13 / 100) 1000 1000"
    by (simp add: valid_input_def spec_standard_error_def spec_scale_def)
  from v verdict_threshold [OF v] show ?thesis by (rule conjI)
qed

text \<open>
  C5. For all positive sizes and any common rate \<open>r\<close> strictly between 0 and 1, the lift
  is 0, the p-value is exactly 1 and the message is \<open>''Not Significant''\<close>.
\<close>

theorem equal_rates:
  assumes "0 < con_size" "0 < test_size" and "0 < r" "r < 1"
  shows "spec_lift r r = 0
    \<and> get_pvalue r r con_size test_size = Inr (Fin 1, ''Not Significant'')"
proof -
  have "0 < r * (1 - r)" using assms(3,4) by simp
  then have "0 < spec_scale r con_size" "0 < spec_scale r test_size"
    using assms(1,2) by (simp_all add: spec_scale_def)
  then have rad: "0 < spec_scale r con_size + spec_scale r test_size" by simp
  have nz: "con_size \<noteq> 0" "test_size \<noteq> 0" using assms(1,2) by simp_all
  have l: "spec_lift r r = 0" by (simp add: spec_lift_def)
  show ?thesis
    using get_pvalue_nondegenerate [OF nz rad] by (simp add: l Phi_0 Let_def)
qed

theorem equal_rates_witness:
  "(0::int) < 3 \<and> (0::int) < 8 \<and> (0::real) < 1 / 5 \<and> (1 / 5 :: real) < 1
   \<and> spec_lift (1 / 5) (1 / 5) = 0
   \<and> get_pvalue (1 / 5) (1 / 5) 3 8 = Inr (Fin 1, ''Not Significant'')"
  using equal_rates [of 3 8 "1 / 5"] by simp

text \<open>
  C6. Swapping the control pair (rate, size) with the test pair leaves the result of
  \<open>get_pvalue\<close> unchanged: the p-value and the message. This holds for all inputs, the
  valid ones among them.
\<close>

theorem get_pvalue_swap:
  "get_pvalue test_conv con_conv test_size con_size
   = get_pvalue con_conv test_conv con_size test_size"
proof -
  have a: "\<bar>con_conv - test_conv\<bar> = \<bar>test_conv - con_conv\<bar>"
    by (rule abs_minus_commute)
  have s: "fadd (fmul (test_conv * (1 - test_conv)) (np_recip test_size))
        (fmul (con_conv * (1 - con_conv)) (np_recip con_size))
    = fadd (fmul (con_conv * (1 - con_conv)) (np_recip con_size))
        (fmul (test_conv * (1 - test_conv)) (np_recip test_size))"
    by (rule fadd_commute)
  show ?thesis
    unfolding get_pvalue_def Let_def a s by simp
qed

text \<open>
  C7 (as stated, refuted). Both inputs below are valid and have the sizes 100 and 100.
  The second has the larger \<open>\<bar>rate_test - rate_control\<bar>\<close> (0.2 against 0.1), but its
  rates lie nearer 1/2, so its standard error is larger too, and its p-value is
  strictly larger than the first's.
\<close>

theorem monotonicity_counterexample:
  "valid_input 0 (1 / 10) 100 100 \<and> valid_input (2 / 5) (3 / 5) 100 100
   \<and> \<bar>1 / 10 - 0 :: real\<bar> < \<bar>3 / 5 - 2 / 5\<bar>
   \<and> returned_p (get_pvalue 0 (1 / 10) 100 100) = Some (Fin (2 * Phi (- (10 / 3))))
   \<and> returned_p (get_pvalue (2 / 5) (3 / 5) 100 100)
       = Some (Fin (2 * Phi (- (1 / 5) / sqrt (3 / 625))))
   \<and> 2 * Phi (- (10 / 3)) < 2 * Phi (- (1 / 5) / sqrt (3 / 625))"
proof -
  have s1: "spec_scale 0 100 + spec_scale (1 / 10) 100 = (3 / 100)\<^sup>2"
    by (simp add: spec_scale_def power2_eq_square)
  have se1: "spec_standard_error 0 (1 / 10) 100 100 = 3 / 100"
    unfolding spec_standard_error_def s1 by (rule real_sqrt_unique) simp_all
  have s2: "spec_scale (2 / 5) 100 + spec_scale (3 / 5) 100 = 3 / 625"
    by (simp add: spec_scale_def)
  have se2: "spec_standard_error (2 / 5) (3 / 5) 100 100 = sqrt (3 / 625)"
    unfolding spec_standard_error_def s2 ..
  have v1: "valid_input 0 (1 / 10) 100 100"
    by (simp add: valid_input_def se1)
  have v2: "valid_input (2 / 5) (3 / 5) 100 100"
    by (simp add: valid_input_def se2)
  have p1: "returned_p (get_pvalue 0 (1 / 10) 100 100) = Some (Fin (2 * Phi (- (10 / 3))))"
    using get_pvalue_nondegenerate [of 100 100 0 "1 / 10"] valid_input_radicand [OF v1]
    by (simp add: Let_def se1 spec_lift_def)
  have p2: "returned_p (get_pvalue (2 / 5) (3 / 5) 100 100)
      = Some (Fin (2 * Phi (- (1 / 5) / sqrt (3 / 625))))"
    using get_pvalue_nondegenerate [of 100 100 "2 / 5" "3 / 5"] valid_input_radicand [OF v2]
    by (simp add: Let_def se2 spec_lift_def)
  have "(3 / 50 :: real) < sqrt (3 / 625)"
    by (rule real_less_rsqrt) (simp add: power2_eq_square)
  then have "(1 / 5) / sqrt (3 / 625) < (1 / 5) / (3 / 50 :: real)"
    by (intro divide_strict_left_mono) simp_all
  then have "- (10 / 3 :: real) < - (1 / 5) / sqrt (3 / 625)"
    by simp
  then have "Phi (- (10 / 3)) < Phi (- (1 / 5) / sqrt (3 / 625))"
    by (rule Phi_strict_mono)
  then have lt: "2 * Phi (- (10 / 3)) < 2 * Phi (- (1 / 5) / sqrt (3 / 625))"
    by simp
  have d: "\<bar>1 / 10 - 0 :: real\<bar> < \<bar>3 / 5 - 2 / 5\<bar>" by simp
  from v1 v2 d p1 p2 lt show ?thesis by (intro conjI)
qed

text \<open>
  The p-value falls with the standardised difference
  \<open>\<bar>rate_test - rate_control\<bar> / standard_error\<close>.
\<close>

lemma p_value_le_standardised:
  assumes "valid_input c1 t1 n1 m1" and "valid_input c2 t2 n2 m2"
    and "\<bar>t1 - c1\<bar> / spec_standard_error c1 t1 n1 m1
          \<le> \<bar>t2 - c2\<bar> / spec_standard_error c2 t2 n2 m2"
  shows "\<exists>p1 p2. returned_p (get_pvalue c1 t1 n1 m1) = Some (Fin p1)
    \<and> returned_p (get_pvalue c2 t2 n2 m2) = Some (Fin p2) \<and> p2 \<le> p1"
proof -
  let ?z1 = "spec_lift c1 t1 / spec_standard_error c1 t1 n1 m1"
  let ?z2 = "spec_lift c2 t2 / spec_standard_error c2 t2 n2 m2"
  have nz: "n1 \<noteq> 0" "m1 \<noteq> 0" "n2 \<noteq> 0" "m2 \<noteq> 0"
    using assms(1,2) by (simp_all add: valid_input_def)
  have p1: "returned_p (get_pvalue c1 t1 n1 m1) = Some (Fin (2 * Phi ?z1))"
    using get_pvalue_nondegenerate [OF nz(1,2) valid_input_radicand [OF assms(1)]]
    by (simp add: Let_def)
  have p2: "returned_p (get_pvalue c2 t2 n2 m2) = Some (Fin (2 * Phi ?z2))"
    using get_pvalue_nondegenerate [OF nz(3,4) valid_input_radicand [OF assms(2)]]
    by (simp add: Let_def)
  have "?z2 \<le> ?z1"
    using assms(3) by (simp add: spec_lift_def)
  then have "2 * Phi ?z2 \<le> 2 * Phi ?z1"
    using Phi_mono [of ?z2 ?z1] by simp
  with p1 p2 show ?thesis by blast
qed

text \<open>
  With the control rate \<open>c\<close> fixed, a test rate further from \<open>c\<close> on the same side has
  the larger ratio of squared difference to Bernoulli variance.
\<close>

lemma variance_cross:
  fixes c t1 t2 :: real
  assumes "0 \<le> c" "c \<le> 1" "0 \<le> t1" "t1 \<le> 1"
    and side: "(c \<le> t1 \<and> t1 \<le> t2) \<or> (t2 \<le> t1 \<and> t1 \<le> c)"
  shows "(t1 - c)\<^sup>2 * (t2 * (1 - t2)) \<le> (t2 - c)\<^sup>2 * (t1 * (1 - t1))"
proof -
  let ?B = "c * (1 - c) * ((t1 - c) + (t2 - c)) + (1 - 2 * c) * (t1 - c) * (t2 - c)"
  have id: "(t2 - c)\<^sup>2 * (t1 * (1 - t1)) - (t1 - c)\<^sup>2 * (t2 * (1 - t2)) = (t2 - t1) * ?B"
    by (simp add: power2_eq_square algebra_simps)
  have "0 \<le> (t2 - t1) * ?B"
    using side
  proof
    assume up: "c \<le> t1 \<and> t1 \<le> t2"
    have "?B = c * (1 - c) * (t1 - c) + (t2 - c) * (c * (1 - t1) + (t1 - c) * (1 - c))"
      by (simp add: algebra_simps)
    moreover have "0 \<le> c * (1 - c) * (t1 - c) + (t2 - c) * (c * (1 - t1) + (t1 - c) * (1 - c))"
      using assms(1-4) up by (intro add_nonneg_nonneg mult_nonneg_nonneg) simp_all
    ultimately have "0 \<le> ?B" by simp
    moreover have "0 \<le> t2 - t1" using up by simp
    ultimately show ?thesis by (rule mult_nonneg_nonneg [rotated])
  next
    assume down: "t2 \<le> t1 \<and> t1 \<le> c"
    have "?B = - (c * (1 - c) * (c - t1) + (c - t2) * ((1 - c) * t1 + (c - t1) * c))"
      by (simp add: algebra_simps)
    moreover have "0 \<le> c * (1 - c) * (c - t1) + (c - t2) * ((1 - c) * t1 + (c - t1) * c)"
      using assms(1-4) down by (intro add_nonneg_nonneg mult_nonneg_nonneg) simp_all
    ultimately have "?B \<le> 0" by simp
    moreover have "t2 - t1 \<le> 0" using down by simp
    ultimately show ?thesis by (rule mult_nonpos_nonpos [rotated])
  qed
  with id show ?thesis by simp
qed

lemma standardised_difference_mono:
  assumes v1: "valid_input c t1 n m" and v2: "valid_input c t2 n m"
    and side: "(c \<le> t1 \<and> t1 \<le> t2) \<or> (t2 \<le> t1 \<and> t1 \<le> c)"
  shows "\<bar>t1 - c\<bar> / spec_standard_error c t1 n m \<le> \<bar>t2 - c\<bar> / spec_standard_error c t2 n m"
proof -
  let ?A = "spec_scale c n"
  let ?R1 = "?A + spec_scale t1 m"
  let ?R2 = "?A + spec_scale t2 m"
  have rates: "0 \<le> c" "c \<le> 1" "0 \<le> t1" "t1 \<le> 1" and m: "0 < real_of_int m"
    and n: "0 < n"
    using v1 by (simp_all add: valid_input_def)
  have A: "0 \<le> ?A" using rates n by (simp add: spec_scale_nonneg)
  have R1: "0 < ?R1" by (rule valid_input_radicand [OF v1])
  have R2: "0 < ?R2" by (rule valid_input_radicand [OF v2])
  have se1: "spec_standard_error c t1 n m = sqrt ?R1"
    and se2: "spec_standard_error c t2 n m = sqrt ?R2"
    by (simp_all add: spec_standard_error_def)
  have "\<bar>t1 - c\<bar> \<le> \<bar>t2 - c\<bar>" using side by auto
  then have sq: "(t1 - c)\<^sup>2 \<le> (t2 - c)\<^sup>2" by (simp only: abs_le_square_iff)
  have var: "(t1 - c)\<^sup>2 * spec_scale t2 m \<le> (t2 - c)\<^sup>2 * spec_scale t1 m"
  proof -
    have "(t1 - c)\<^sup>2 * (t2 * (1 - t2)) / real_of_int m
        \<le> (t2 - c)\<^sup>2 * (t1 * (1 - t1)) / real_of_int m"
      using variance_cross [OF rates side] m by (rule divide_right_mono [OF _ less_imp_le])
    then show ?thesis by (simp add: spec_scale_def)
  qed
  have "(t1 - c)\<^sup>2 * ?A \<le> (t2 - c)\<^sup>2 * ?A"
    using sq A by (rule mult_right_mono)
  with var have "(t1 - c)\<^sup>2 * ?R2 \<le> (t2 - c)\<^sup>2 * ?R1"
    by (simp add: distrib_left)
  then have "(\<bar>t1 - c\<bar> * sqrt ?R2)\<^sup>2 \<le> (\<bar>t2 - c\<bar> * sqrt ?R1)\<^sup>2"
    using R1 R2 by (simp add: power_mult_distrib)
  moreover have "0 \<le> \<bar>t2 - c\<bar> * sqrt ?R1"
    using R1 by (intro mult_nonneg_nonneg) simp_all
  ultimately have "\<bar>t1 - c\<bar> * sqrt ?R2 \<le> \<bar>t2 - c\<bar> * sqrt ?R1"
    by (rule power2_le_imp_le)
  moreover have "0 < sqrt ?R1" "0 < sqrt ?R2" using R1 R2 by simp_all
  ultimately have "\<bar>t1 - c\<bar> / sqrt ?R1 \<le> \<bar>t2 - c\<bar> / sqrt ?R2"
    by (simp add: field_simps)
  then show ?thesis by (simp only: se1 se2)
qed

text \<open>
  The test rates must lie on the same side of the control rate. With the control rate
  0.9 and the sizes 100 and 100, the test rate 0.75 is further from the control rate
  than the test rate 1 is, and has the strictly larger p-value.
\<close>

lemma monotonicity_opposite_sides:
  "valid_input (9 / 10) 1 100 100 \<and> valid_input (9 / 10) (3 / 4) 100 100
   \<and> \<bar>1 - 9 / 10 :: real\<bar> < \<bar>3 / 4 - 9 / 10\<bar>
   \<and> returned_p (get_pvalue (9 / 10) 1 100 100) = Some (Fin (2 * Phi (- (10 / 3))))
   \<and> returned_p (get_pvalue (9 / 10) (3 / 4) 100 100)
       = Some (Fin (2 * Phi (- (3 / 20) / sqrt (111 / 40000))))
   \<and> 2 * Phi (- (10 / 3)) < 2 * Phi (- (3 / 20) / sqrt (111 / 40000))"
proof -
  have s1: "spec_scale (9 / 10) 100 + spec_scale 1 100 = (3 / 100)\<^sup>2"
    by (simp add: spec_scale_def power2_eq_square)
  have se1: "spec_standard_error (9 / 10) 1 100 100 = 3 / 100"
    unfolding spec_standard_error_def s1 by (rule real_sqrt_unique) simp_all
  have s2: "spec_scale (9 / 10) 100 + spec_scale (3 / 4) 100 = 111 / 40000"
    by (simp add: spec_scale_def)
  have se2: "spec_standard_error (9 / 10) (3 / 4) 100 100 = sqrt (111 / 40000)"
    unfolding spec_standard_error_def s2 ..
  have v1: "valid_input (9 / 10) 1 100 100"
    by (simp add: valid_input_def se1)
  have v2: "valid_input (9 / 10) (3 / 4) 100 100"
    by (simp add: valid_input_def se2)
  have p1: "returned_p (get_pvalue (9 / 10) 1 100 100) = Some (Fin (2 * Phi (- (10 / 3))))"
    using get_pvalue_nondegenerate [of 100 100 "9 / 10" 1] valid_input_radicand [OF v1]
    by (simp add: Let_def se1 spec_lift_def)
  have p2: "returned_p (get_pvalue (9 / 10) (3 / 4) 100 100)
      = Some (Fin (2 * Phi (- (3 / 20) / sqrt (111 / 40000))))"
    using get_pvalue_nondegenerate [of 100 100 "9 / 10" "3 / 4"] valid_input_radicand [OF v2]
    by (simp add: Let_def se2 spec_lift_def)
  have "(9 / 200 :: real) < sqrt (111 / 40000)"
    by (rule real_less_rsqrt) (simp add: power2_eq_square)
  then have "(3 / 20) / sqrt (111 / 40000) < (3 / 20) / (9 / 200 :: real)"
    by (intro divide_strict_left_mono) simp_all
  then have "- (10 / 3 :: real) < - (3 / 20) / sqrt (111 / 40000)"
    by simp
  then have "Phi (- (10 / 3)) < Phi (- (3 / 20) / sqrt (111 / 40000))"
    by (rule Phi_strict_mono)
  then have lt: "2 * Phi (- (10 / 3)) < 2 * Phi (- (3 / 20) / sqrt (111 / 40000))"
    by simp
  have d: "\<bar>1 - 9 / 10 :: real\<bar> < \<bar>3 / 4 - 9 / 10\<bar>" by simp
  from v1 v2 d p1 p2 lt show ?thesis by (intro conjI)
qed

text \<open>
  C7 (amended). Holding the sizes and the control rate fixed, moving the test rate
  further from the control rate on the same side never increases the p-value: for any
  two valid inputs with the same sizes and the same control rate whose test rates lie
  on the same side of the control rate, if the second input has a strictly larger
  \<open>\<bar>rate_test - rate_control\<bar>\<close> than the first, then its p-value is not larger than
  the first's.
\<close>

theorem p_value_antitone_same_control:
  assumes "valid_input rate_control t1 size_control size_test"
    and "valid_input rate_control t2 size_control size_test"
    and "(rate_control \<le> t1 \<and> rate_control \<le> t2) \<or> (t1 \<le> rate_control \<and> t2 \<le> rate_control)"
    and "\<bar>t1 - rate_control\<bar> < \<bar>t2 - rate_control\<bar>"
  shows "\<exists>p1 p2.
      returned_p (get_pvalue rate_control t1 size_control size_test) = Some (Fin p1)
    \<and> returned_p (get_pvalue rate_control t2 size_control size_test) = Some (Fin p2)
    \<and> p2 \<le> p1"
proof -
  have side: "(rate_control \<le> t1 \<and> t1 \<le> t2) \<or> (t2 \<le> t1 \<and> t1 \<le> rate_control)"
    using assms(3,4) by auto
  show ?thesis
    by (rule p_value_le_standardised [OF assms(1,2)
          standardised_difference_mono [OF assms(1,2) side]])
qed

theorem p_value_antitone_same_control_witness:
  "valid_input (1 / 10) (13 / 100) 1000 1000 \<and> valid_input (1 / 10) (3 / 20) 1000 1000
   \<and> ((1 / 10 :: real) \<le> 13 / 100 \<and> (1 / 10 :: real) \<le> 3 / 20)
   \<and> \<bar>13 / 100 - 1 / 10 :: real\<bar> < \<bar>3 / 20 - 1 / 10\<bar>
   \<and> (\<exists>p1 p2. returned_p (get_pvalue (1 / 10) (13 / 100) 1000 1000) = Some (Fin p1)
        \<and> returned_p (get_pvalue (1 / 10) (3 / 20) 1000 1000) = Some (Fin p2) \<and> p2 \<le> p1)"
proof -
  have v1: "valid_input (1 / 10) (13 / 100) 1000 1000"
    by (simp add: valid_input_def spec_standard_error_def spec_scale_def)
  have v2: "valid_input (1 / 10) (3 / 20) 1000 1000"
    by (simp add: valid_input_def spec_standard_error_def spec_scale_def)
  have s: "((1 / 10 :: real) \<le> 13 / 100 \<and> (1 / 10 :: real) \<le> 3 / 20)
      \<or> ((13 / 100 :: real) \<le> 1 / 10 \<and> (3 / 20 :: real) \<le> 1 / 10)"
    by simp
  have d: "\<bar>13 / 100 - 1 / 10 :: real\<bar> < \<bar>3 / 20 - 1 / 10\<bar>" by simp
  have s': "(1 / 10 :: real) \<le> 13 / 100 \<and> (1 / 10 :: real) \<le> 3 / 20" by simp
  from v1 v2 s' d p_value_antitone_same_control [OF v1 v2 s d] show ?thesis
    by blast
qed

text \<open>
  C10. For every input with positive sizes whose pooled standard error is a nonzero
  real number (the radicand \<open>scale_control + scale_test\<close> is positive, as it is for
  every valid input), the p-value returned lies in \<open>[0, 1]\<close>: the lift is at most 0, so
  \<open>Phi\<close> is evaluated at a point where it is at most 1/2.
\<close>

theorem p_value_unit_interval:
  assumes "0 < con_size" "0 < test_size"
    and "0 < spec_scale con_conv con_size + spec_scale test_conv test_size"
  shows "returned_p (get_pvalue con_conv test_conv con_size test_size)
      = Some (Fin (2 * Phi (spec_lift con_conv test_conv /
          spec_standard_error con_conv test_conv con_size test_size)))
    \<and> 0 \<le> 2 * Phi (spec_lift con_conv test_conv /
          spec_standard_error con_conv test_conv con_size test_size)
    \<and> 2 * Phi (spec_lift con_conv test_conv /
          spec_standard_error con_conv test_conv con_size test_size) \<le> 1"
proof -
  have se: "0 < spec_standard_error con_conv test_conv con_size test_size"
    using assms(3) by (simp add: spec_standard_error_def)
  have nz: "con_size \<noteq> 0" "test_size \<noteq> 0" using assms(1,2) by simp_all
  have "returned_p (get_pvalue con_conv test_conv con_size test_size)
      = Some (Fin (2 * Phi (spec_lift con_conv test_conv /
          spec_standard_error con_conv test_conv con_size test_size)))"
    using get_pvalue_nondegenerate [OF nz assms(3)] by (simp add: Let_def)
  with p_value_range [OF se, of con_conv test_conv] show ?thesis by (intro conjI)
qed

theorem p_value_unit_interval_witness:
  "(0::int) < 500 \<and> 0 < spec_scale (1 / 10) 500 + spec_scale (13 / 125) 500
   \<and> returned_p (get_pvalue (1 / 10) (13 / 125) 500 500)
      = Some (Fin (2 * Phi (spec_lift (1 / 10) (13 / 125) /
          spec_standard_error (1 / 10) (13 / 125) 500 500)))
   \<and> 0 \<le> 2 * Phi (spec_lift (1 / 10) (13 / 125) /
          spec_standard_error (1 / 10) (13 / 125) 500 500)
   \<and> 2 * Phi (spec_lift (1 / 10) (13 / 125) /
          spec_standard_error (1 / 10) (13 / 125) 500 500) \<le> 1"
proof -
  have n: "(0::int) < 500" by simp
  have rad: "0 < spec_scale (1 / 10) 500 + spec_scale (13 / 125) 500"
    by (simp add: spec_scale_def)
  from n rad p_value_unit_interval [OF n n rad] show ?thesis by blast
qed

section \<open>Claims about the checking and extraction cells\<close>

lemma set_unique_from: "set (unique_from seen xs) = set xs - set seen"
  by (induction xs arbitrary: seen) auto

lemma unique_from_only_one:
  "set (unique_from [0] ys) = {1::int} \<Longrightarrow> unique_from [0] ys = [1]"
proof (induction ys)
  case Nil
  then show ?case by simp
next
  case (Cons y ys)
  show ?case
  proof (cases "y = 0")
    case True
    with Cons show ?thesis by simp
  next
    case False
    have "y \<in> set (unique_from [0] (y # ys))" using False by simp
    with Cons.prems have y: "y = 1" by blast
    have "set (unique_from [0] (y # ys)) = set (y # ys) - {0}"
      using set_unique_from [of "[0]" "y # ys"] by simp
    with Cons.prems y have "set ys \<subseteq> {0, 1}" by auto
    then have "set (unique_from [1, 0] ys) = {}"
      using set_unique_from [of "[1, 0]" ys] by auto
    then have "unique_from [1, 0] ys = []" by simp
    with False y show ?thesis by simp
  qed
qed

lemma unique_01_iff:
  "unique col = [0, 1::int] \<longleftrightarrow> (\<exists>rest. col = 0 # rest \<and> set col = {0, 1})"
proof
  assume u: "unique col = [0, 1]"
  have "set (unique col) = set col"
    using set_unique_from [of "[]" col] by (simp add: unique_def)
  with u have s: "set col = {0, 1}" by simp
  from u obtain x rest where xr: "col = x # rest"
    by (cases col) (simp_all add: unique_def)
  with u have "x = 0" by (simp add: unique_def)
  with xr s show "\<exists>rest. col = 0 # rest \<and> set col = {0, 1}" by simp
next
  assume "\<exists>rest. col = 0 # rest \<and> set col = {0, 1}"
  then obtain rest where r: "col = 0 # rest" and s: "set col = {0, 1}" by auto
  have "(1::int) \<in> set col" unfolding s by simp
  then have one: "1 \<in> set rest" using r by simp
  have sub: "set rest \<subseteq> {0, 1}" using r s by auto
  have "set (unique_from [0] rest) = set rest - {0}"
    using set_unique_from [of "[0]" rest] by simp
  with one sub have "set (unique_from [0] rest) = {1}" by auto
  then have "unique_from [0] rest = [1]" by (rule unique_from_only_one)
  then show "unique col = [0, 1]" by (simp add: unique_def r)
qed

text \<open>
  The check prints \<open>True\<close> exactly for the columns whose first value is 0 and whose
  values are 0 and 1, both present.
\<close>

lemma check_converted_iff:
  "check_converted df = Inr True \<longleftrightarrow>
     (\<exists>rest. map converted df = 0 # rest \<and> set (map converted df) = {0, 1})"
proof -
  have "eq_01_all us = Inr True \<longleftrightarrow> us = [0, 1]" for us
    by (auto simp add: eq_01_all_def split: list.splits)
  then have "check_converted df = Inr True \<longleftrightarrow> unique (map converted df) = [0, 1]"
    by (simp add: check_converted_def)
  then show ?thesis by (simp only: unique_01_iff)
qed

text \<open>
  C8 (code bug). The column \<open>[1, 0]\<close> holds only the values 0 and 1, and the check prints
  \<open>False\<close>: \<open>unique()\<close> lists the values in order of first appearance, here \<open>[1, 0]\<close>, and
  the comparison with \<open>[0, 1]\<close> is made position by position.
\<close>

theorem check_converted_order:
  "set (map converted
     [\<lparr>uid = ''u1'', date = ''2021-01-01'', group_label = ''A'', converted = 1\<rparr>,
      \<lparr>uid = ''u2'', date = ''2021-01-01'', group_label = ''B'', converted = 0\<rparr>]) = {0, 1}
   \<and> check_converted
     [\<lparr>uid = ''u1'', date = ''2021-01-01'', group_label = ''A'', converted = 1\<rparr>,
      \<lparr>uid = ''u2'', date = ''2021-01-01'', group_label = ''B'', converted = 0\<rparr>] = Inr False
   \<and> check_converted
     [\<lparr>uid = ''u2'', date = ''2021-01-01'', group_label = ''B'', converted = 0\<rparr>,
      \<lparr>uid = ''u1'', date = ''2021-01-01'', group_label = ''A'', converted = 1\<rparr>] = Inr True"
  by (auto simp add: check_converted_def eq_01_all_def unique_def)

text \<open>
  C9 (code bug). In the first table the label first met, \<open>A\<close>, is the smaller group:
  \<open>value_counts\<close> puts the larger group \<open>B\<close> at position 0, so \<open>a_size\<close> is the size of
  \<open>B\<close> while \<open>a_conv\<close> is the rate of \<open>A\<close>, and \<open>b_size\<close> is the size of \<open>A\<close> while \<open>b_conv\<close>
  is the rate of \<open>B\<close>. In the second table the label first met, \<open>B\<close>, sorts after \<open>A\<close>:
  its row of \<open>cr\<close> has the index 1 and the lookup \<open>.conv[0]\<close> raises \<open>KeyError\<close>.
\<close>

theorem extract_groups_mismatch:
  "extract_groups
     [\<lparr>uid = ''u1'', date = ''2021-01-01'', group_label = ''A'', converted = 0\<rparr>,
      \<lparr>uid = ''u2'', date = ''2021-01-01'', group_label = ''B'', converted = 1\<rparr>,
      \<lparr>uid = ''u3'', date = ''2021-01-02'', group_label = ''B'', converted = 0\<rparr>]
     = Inr \<lparr>label_a = ''A'', label_b = ''B'', a_size = 2, b_size = 1,
            a_conv = 0, b_conv = 1 / 2\<rparr>
   \<and> count_of [''A'', ''B'', ''B''] ''A'' = 1
   \<and> count_of [''A'', ''B'', ''B''] ''B'' = 2
   \<and> extract_groups
     [\<lparr>uid = ''u1'', date = ''2021-01-01'', group_label = ''B'', converted = 0\<rparr>,
      \<lparr>uid = ''u2'', date = ''2021-01-01'', group_label = ''A'', converted = 1\<rparr>]
     = Inl KeyError"
  by (simp add: extract_groups_def value_counts_def unique_def count_of_def iloc_def
      groupby_agg_def conv_loc_def Let_def)

end
